theory Spec2Isabelle
  imports Complex_Main
begin

section \<open>Image preloader\<close>

text \<open>
  \<^verbatim>\<open>hooks/useImagePreloader.ts\<close>. A \<^verbatim>\<open>PreloadTask\<close>, and the module state: the set
  \<^verbatim>\<open>loadedImages\<close>, the queue \<^verbatim>\<open>pendingTasks\<close>, the flag \<^verbatim>\<open>isIdleLoading\<close>, together with
  the hook's \<^verbatim>\<open>abortRef\<close> (set when the component unmounts).
\<close>

datatype priority = Critical | High | Low | Idle

datatype status = Pending | Loading | Loaded | Error

record preload_task =
  url :: string
  priority :: priority
  status :: status

record preloader =
  loadedImages :: "string set"
  pendingTasks :: "preload_task list"
  isIdleLoading :: bool
  abortRef :: bool

definition initialPreloader :: preloader where
  "initialPreloader =
     \<lparr>loadedImages = {}, pendingTasks = [], isIdleLoading = False, abortRef = False\<rparr>"

text \<open>
  How a promise settles, and the callbacks an operation leaves behind:
  \<^verbatim>\<open>setTimeout(processIdleTasks, 100)\<close>, and the drain of the queue
  (\<^verbatim>\<open>requestIdleCallback(idleCallback)\<close>, or \<^verbatim>\<open>setTimeout(fallbackProcess, 50)\<close> where the
  browser has no idle callbacks).
\<close>

datatype settled = Resolved | Rejected

datatype scheduled = DelayedProcessIdleTasks | IdleDrain

text \<open>
  \<^verbatim>\<open>preloadImage(url)\<close>: resolved at once for a cached URL; otherwise an \<^verbatim>\<open>Image\<close> is
  created and the fetch starts. Whether the image then loads (\<^verbatim>\<open>onload\<close>: the URL is
  added to the cache, the promise resolves) or fails (\<^verbatim>\<open>onerror\<close>: the promise rejects,
  nothing is recorded) is the network's answer \<open>net u\<close>. The fetch and its completion
  are one step of the model. Returns how the promise settled, the fetches started and
  the state.
\<close>

definition preloadImage ::
  "(string \<Rightarrow> bool) \<Rightarrow> string \<Rightarrow> preloader \<Rightarrow> settled \<times> string list \<times> preloader" where
  "preloadImage net u st =
     (if u \<in> loadedImages st then (Resolved, [], st)
      else if net u then (Resolved, [u], st\<lparr>loadedImages := insert u (loadedImages st)\<rparr>)
      else (Rejected, [u], st))"

text \<open>
  The two halves of \<^verbatim>\<open>preloadImage\<close>, for the code that does not wait for it. What
  runs at once is the cache test and \<^verbatim>\<open>img.src = url\<close>: \<open>fetchStarted\<close> is the fetch
  that starts, none for a cached URL. \<^verbatim>\<open>onload\<close> and \<^verbatim>\<open>onerror\<close> run later, as
  tasks of their own, never inside a running callback: \<open>settle\<close> is the state once the
  fetches of the list have ended, the loaded ones added to the cache and the failed ones
  recorded nowhere.
\<close>

definition fetchStarted :: "string \<Rightarrow> preloader \<Rightarrow> string list" where
  "fetchStarted u st = (if u \<in> loadedImages st then [] else [u])"

definition settle :: "(string \<Rightarrow> bool) \<Rightarrow> string list \<Rightarrow> preloader \<Rightarrow> preloader" where
  "settle net fetched st = st\<lparr>loadedImages := loadedImages st \<union> set (filter net fetched)\<rparr>"





definition processIdleTasks :: "preloader \<Rightarrow> scheduled list \<times> preloader" where
  "processIdleTasks st =
     (if isIdleLoading st then ([], st)
      else ([IdleDrain], st\<lparr>isIdleLoading := True\<rparr>))"

text \<open>
  The \<^verbatim>\<open>'high'\<close> branch of \<^verbatim>\<open>preload\<close>:
  \<^verbatim>\<open>for (const url of validUrls) { if (abortRef.current) break; await preloadImage(url).catch(() => {}); }\<close>
\<close>

fun preloadSequential ::
  "(string \<Rightarrow> bool) \<Rightarrow> string list \<Rightarrow> preloader \<Rightarrow> string list \<times> preloader" where
  "preloadSequential net [] st = ([], st)"
| "preloadSequential net (u # validUrls) st =
     (if abortRef st then ([], st)
      else (case preloadImage net u st of
              (outcome, fetched, st) \<Rightarrow>
                (case preloadSequential net validUrls st of
                   (fetched', st) \<Rightarrow> (fetched @ fetched', st))))"

text \<open>
  \<^verbatim>\<open>preload(urls, { priority })\<close>. \<^verbatim>\<open>url && !loadedImages.has(url)\<close> keeps the non-empty
  URLs that are not cached. \<^verbatim>\<open>'critical'\<close> starts every fetch at once
  (\<^verbatim>\<open>Promise.all\<close>), \<^verbatim>\<open>'high'\<close> loads one after the other, \<^verbatim>\<open>'low'\<close> and \<^verbatim>\<open>'idle'\<close> push
  pending tasks. Returns the fetches started, the callbacks scheduled and the state.
\<close>

definition preload ::
  "(string \<Rightarrow> bool) \<Rightarrow> string list \<Rightarrow> priority \<Rightarrow> preloader
     \<Rightarrow> string list \<times> scheduled list \<times> preloader" where
  "preload net urls prio st =
     (let validUrls = filter (\<lambda>u. u \<noteq> [] \<and> u \<notin> loadedImages st) urls in
      if length validUrls = 0 then ([], [], st)
      else
        (case prio of
           Critical \<Rightarrow>
             (validUrls, [],
              st\<lparr>loadedImages := loadedImages st \<union> set (filter net validUrls)\<rparr>)
         | High \<Rightarrow>
             (case preloadSequential net validUrls st of
                (fetched, st) \<Rightarrow> (fetched, [], st))
         | Low \<Rightarrow>
             ([], [DelayedProcessIdleTasks],
              st\<lparr>pendingTasks := pendingTasks st @
                 map (\<lambda>u. \<lparr>url = u, priority = Low, status = Pending\<rparr>) validUrls\<rparr>)
         | Idle \<Rightarrow>
             (case processIdleTasks
                (st\<lparr>pendingTasks := pendingTasks st @
                   map (\<lambda>u. \<lparr>url = u, priority = Idle, status = Pending\<rparr>) validUrls\<rparr>) of
                (sched, st) \<Rightarrow> ([], sched, st))))"

text \<open>
  \<^verbatim>\<open>!!url\<close> for a \<^verbatim>\<open>string | null\<close>: neither \<^verbatim>\<open>null\<close> nor the empty string.
\<close>

definition truthy :: "string option \<Rightarrow> bool" where
  "truthy u = (case u of None \<Rightarrow> False | Some s \<Rightarrow> s \<noteq> [])"

text \<open>
  \<^verbatim>\<open>Array.prototype.slice(start, end)\<close> on integer arguments: a negative index counts
  from the end, both are clamped to the length, and an empty range gives the empty list.
\<close>

definition slice :: "'a list \<Rightarrow> int \<Rightarrow> int \<Rightarrow> 'a list" where
  "slice xs start stop =
     (let len = int (length xs);
          k = (if start < 0 then max (len + start) 0 else min start len);
          final = (if stop < 0 then max (len + stop) 0 else min stop len)
      in take (nat (final - k)) (drop (nat k) xs))"

text \<open>
  \<^verbatim>\<open>preloadForViewer(pageImageUrls, currentPage, initialPages)\<close>. \<open>viewerTiers\<close> are the
  four arrays \<^verbatim>\<open>criticalUrls\<close>, \<^verbatim>\<open>highUrls\<close>, \<^verbatim>\<open>lowUrls\<close>, \<^verbatim>\<open>idleUrls\<close> it computes (all
  empty when it returns early because there is no valid URL); \<open>preloadForViewer\<close> hands
  them to \<^verbatim>\<open>preload\<close>, the last three only when they are not empty.
\<close>

record tiers =
  criticalUrls :: "string list"
  highUrls :: "string list"
  lowUrls :: "string list"
  idleUrls :: "string list"

definition viewerTiers :: "string option list \<Rightarrow> int \<Rightarrow> int \<Rightarrow> tiers" where
  "viewerTiers pageImageUrls currentPage initialPages =
     (let validUrls = map the (filter truthy pageImageUrls) in
      if length validUrls = 0
      then \<lparr>criticalUrls = [], highUrls = [], lowUrls = [], idleUrls = []\<rparr>
      else
        let currentIndex = currentPage - 1;
            criticalStart = max 0 currentIndex;
            criticalEnd = min (int (length validUrls)) (criticalStart + initialPages);
            highStart = criticalEnd;
            highEnd = min (int (length validUrls)) (highStart + 2);
            lowStart = highEnd;
            lowEnd = min (int (length validUrls)) (lowStart + 4)
        in \<lparr>criticalUrls = slice validUrls criticalStart criticalEnd,
            highUrls = slice validUrls highStart highEnd,
            lowUrls = slice validUrls lowStart lowEnd,
            idleUrls = slice validUrls lowEnd (int (length validUrls))\<rparr>)"





text \<open>Concrete page lists, networks and states used to instantiate the theorems.\<close>

definition pages3 :: "string option list" where
  "pages3 = [None, Some ''p2.png'', Some ''p3.png'']"

definition pagesDup :: "string option list" where
  "pagesDup = [Some ''p1.png'', Some ''p1.png'']"

definition pages10 :: "string option list" where
  "pages10 = [Some ''p1.png'', Some ''p2.png'', Some ''p3.png'', Some ''p4.png'', None,
     Some ''p6.png'', Some ''p7.png'', Some ''p8.png'', Some ''p9.png'', Some ''p10.png'']"

definition allLoad :: "string \<Rightarrow> bool" where
  "allLoad u = True"


definition cachedP1 :: preloader where
  "cachedP1 = \<lparr>loadedImages = {''p1.png''}, pendingTasks = [], isIdleLoading = False,
     abortRef = False\<rparr>"







section \<open>Flipbook viewer: lazy page rendering\<close>

text \<open>
  \<^verbatim>\<open>FlipbookViewer.tsx\<close> holds the component twice, and \<^verbatim>\<open>shouldRenderPage(pageIndex)\<close>
  with it. Both decide from the 1-based \<^verbatim>\<open>pageNumber\<close> whether the sheet with 0-based
  index \<^verbatim>\<open>pageIndex\<close> is rendered.

  The first copy (\<^verbatim>\<open>RENDER_BUFFER = 4\<close>):
  \<^verbatim>\<open>const current = pageNumber - 1; return Math.abs(pageIndex - current) <= RENDER_BUFFER;\<close>
\<close>

datatype view_mode = Single | Double



text \<open>
  The second copy (\<^verbatim>\<open>PRELOAD_AHEAD = 2\<close>,
  \<^verbatim>\<open>initialPages = viewMode === 'double' ? 2 : 1\<close>): the first \<^verbatim>\<open>initialPages\<close> sheets
  always, and every sheet up to \<^verbatim>\<open>PRELOAD_AHEAD\<close> after the current one.
\<close>

definition PRELOAD_AHEAD :: int where
  "PRELOAD_AHEAD = 2"

definition shouldRenderPage_ahead :: "view_mode \<Rightarrow> int \<Rightarrow> int \<Rightarrow> bool" where
  "shouldRenderPage_ahead viewMode pageNumber pageIndex =
     (let initialPages = (if viewMode = Double then 2 else 1);
          currentIndex = pageNumber - 1 in
      if pageIndex < initialPages then True
      else (let maxLoadedIndex = currentIndex + PRELOAD_AHEAD in
            pageIndex \<le> maxLoadedIndex))"

text \<open>
  What a sheet of the raw-document (PDF) flipbook holds, in either copy:
  \<^verbatim>\<open>shouldRenderPage(index) ? <Page pageNumber={index + 1} ... /> : placeholder\<close>, the
  \<^verbatim>\<open><Page>\<close> element of the rendering library or the placeholder that only prints the
  page number.
\<close>

datatype sheet_content = PdfPage int | PagePlaceholder int


definition rawSheet_ahead :: "view_mode \<Rightarrow> int \<Rightarrow> int \<Rightarrow> sheet_content" where
  "rawSheet_ahead viewMode pageNumber index =
     (if shouldRenderPage_ahead viewMode pageNumber index then PdfPage (index + 1)
      else PagePlaceholder (index + 1))"

section \<open>Flipbook viewer: double tap and double click\<close>







section \<open>Flipbook viewer: layout calculation\<close>

text \<open>
  \<^verbatim>\<open>calculateLayout\<close> in \<^verbatim>\<open>FlipbookViewer.tsx\<close>. The container's \<^verbatim>\<open>clientWidth\<close> and
  \<^verbatim>\<open>clientHeight\<close> and \<^verbatim>\<open>window.innerWidth\<close> are integers; \<^verbatim>\<open>pdfRatio\<close> and the target
  dimensions are JavaScript numbers. The function sets the view mode and stores the
  floored base dimensions; it does nothing while the container is not mounted, so the
  container is an argument. For \<^verbatim>\<open>RATIO = 0\<close> JavaScript divides to \<^verbatim>\<open>Infinity\<close>, which
  is outside the model: the properties below take \<open>0 < RATIO\<close>.

  The calculation is given twice. \<open>calculateLayout\<close> is the calculation in exact
  arithmetic, the intermediate quotient and product not rounded; the ratio property is
  stated of it. \<open>calculateLayout_float64\<close> further down rounds the quotient and the
  products to double precision before \<^verbatim>\<open>Math.floor\<close>, as the code does; the two can
  differ by one pixel where a product rounds up to a whole number.
\<close>

record base_dim =
  width :: int
  height :: int

definition DEFAULT_RATIO :: real where
  "DEFAULT_RATIO = 1.414"


text \<open>
  Double precision. A JavaScript number is an IEEE 754 binary64 value, and \<^verbatim>\<open>/\<close> and
  \<^verbatim>\<open>*\<close> return the exact result rounded to the nearest such value, ties to the even
  significand. \<open>float64 x\<close> is that rounding for a real \<open>x\<close>: the significand
  \<open>x / ulp x\<close>, between \<open>2 ^ 52\<close> and \<open>2 ^ 53\<close>, is rounded to an integer. The exponent
  is not bounded: overflow to \<^verbatim>\<open>Infinity\<close> and the subnormal range are not modelled.
  Subtracting 40, 60 or 80 from a container size and halving are exact in double
  precision for sizes below \<open>2 ^ 53\<close> and are left unrounded.
\<close>

definition roundHalfEven :: "real \<Rightarrow> int" where
  "roundHalfEven y =
     (let n = \<lfloor>y\<rfloor>; d = y - real_of_int n in
      if d < 1 / 2 then n
      else if 1 / 2 < d then n + 1
      else if even n then n else n + 1)"

definition ulp :: "real \<Rightarrow> real" where
  "ulp x = 2 powr real_of_int (\<lfloor>log 2 \<bar>x\<bar>\<rfloor> - 52)"

definition float64 :: "real \<Rightarrow> real" where
  "float64 x = (if x = 0 then 0 else real_of_int (roundHalfEven (x / ulp x)) * ulp x)"

text \<open>
  \<^verbatim>\<open>calculateLayout\<close> with every quotient and product rounded to double precision:
  \<^verbatim>\<open>targetHeight / RATIO\<close>, \<^verbatim>\<open>targetWidth * RATIO\<close> and \<^verbatim>\<open>200 * RATIO\<close>. The ratio
  argument is itself a double; the default \<^verbatim>\<open>1.414\<close> of the source is \<open>float64 1.414\<close>.
\<close>

definition calculateLayout_float64 :: "int \<Rightarrow> int \<Rightarrow> int \<Rightarrow> real \<Rightarrow> view_mode \<times> base_dim" where
  "calculateLayout_float64 containerW containerH windowW RATIO =
     (let isMobile = windowW < 1024;
          mode = (if isMobile then Single else Double);
          (targetWidth, targetHeight) =
            (if mode = Single then
               (let maxH = of_int containerH - 40;
                    maxW = of_int containerW - 40;
                    targetHeight = maxH;
                    targetWidth = float64 (targetHeight / RATIO)
                in if targetWidth > maxW then (maxW, float64 (maxW * RATIO))
                   else (targetWidth, targetHeight))
             else
               (let maxH = of_int containerH - 60;
                    maxW = (of_int containerW - 80) / 2;
                    targetHeight = maxH;
                    targetWidth = float64 (targetHeight / RATIO)
                in if targetWidth > maxW then (maxW, float64 (maxW * RATIO))
                   else (targetWidth, targetHeight)));
          targetWidth = (if targetWidth < 200 then 200 else targetWidth);
          targetHeight = (if targetHeight < float64 (200 * RATIO) then float64 (200 * RATIO)
                          else targetHeight)
      in (mode, \<lparr>width = \<lfloor>targetWidth\<rfloor>, height = \<lfloor>targetHeight\<rfloor>\<rparr>))"

section \<open>Page-flip sound player\<close>

text \<open>
  \<^verbatim>\<open>usePageFlipSound\<close>. An \<^verbatim>\<open>HTMLAudioElement\<close> of the pool, with a counter of the
  \<^verbatim>\<open>play()\<close> calls it received, and the three refs of the hook.
\<close>

record audio =
  src :: string
  volume :: real
  playbackRate :: real
  currentTime :: real
  plays :: nat

record sound_state =
  audioPoolRef :: "audio list"
  loadedRef :: bool
  lastSoundIndexRef :: int

definition PAGE_FLIP_SOUNDS :: "string list" where
  "PAGE_FLIP_SOUNDS =
     [''page-flip1-178322.mp3'', ''page-flip2-178323.mp3'', ''small-page-103398.mp3'']"

definition initialSoundState :: sound_state where
  "initialSoundState = \<lparr>audioPoolRef = [], loadedRef = False, lastSoundIndexRef = - 1\<rparr>"

text \<open>
  \<^verbatim>\<open>initAudioPool\<close> does nothing when the pool is loaded or there is no \<^verbatim>\<open>window\<close>;
  otherwise it pushes one element per sound file.
\<close>

definition initAudioPool :: "real \<Rightarrow> bool \<Rightarrow> sound_state \<Rightarrow> sound_state" where
  "initAudioPool vol windowDefined st =
     (if loadedRef st \<or> \<not> windowDefined then st
      else st\<lparr>audioPoolRef := audioPoolRef st @
                  map (\<lambda>s. \<lparr>src = s, volume = vol, playbackRate = 1.3, currentTime = 0,
                            plays = 0\<rparr>) PAGE_FLIP_SOUNDS,
              loadedRef := True\<rparr>)"

text \<open>
  The \<^verbatim>\<open>do { randomIndex = Math.floor(Math.random() * pool.length) } while (...)\<close> loop.
  The results of the coming \<^verbatim>\<open>Math.random()\<close> calls are the list \<open>draws\<close>; the loop
  may redraw without bound, and \<open>None\<close> says that it has not left the loop within the
  given draws. Otherwise it returns the index and the draws left over.
\<close>

fun pickRandomIndex :: "real list \<Rightarrow> int \<Rightarrow> nat \<Rightarrow> (int \<times> real list) option" where
  "pickRandomIndex [] lastIndex poolLength = None"
| "pickRandomIndex (r # draws) lastIndex poolLength =
     (let randomIndex = \<lfloor>r * real poolLength\<rfloor> in
      if randomIndex = lastIndex \<and> poolLength > 1
      then pickRandomIndex draws lastIndex poolLength
      else Some (randomIndex, draws))"

text \<open>
  \<^verbatim>\<open>playFlipSound\<close> returns the selected index (\<open>None\<close> when it returns before
  selecting: sound disabled or empty pool), the new state and the draws left over.
\<close>

definition playFlipSound ::
  "bool \<Rightarrow> real \<Rightarrow> bool \<Rightarrow> real list \<Rightarrow> sound_state
     \<Rightarrow> (int option \<times> sound_state \<times> real list) option" where
  "playFlipSound enabled vol windowDefined draws st =
     (if \<not> enabled then Some (None, st, draws)
      else
        let st = (if \<not> loadedRef st then initAudioPool vol windowDefined st else st);
            pool = audioPoolRef st
        in if length pool = 0 then Some (None, st, draws)
           else
             (case pickRandomIndex draws (lastSoundIndexRef st) (length pool) of
                None \<Rightarrow> None
              | Some (randomIndex, draws') \<Rightarrow>
                  let st = st\<lparr>lastSoundIndexRef := randomIndex\<rparr> in
                  if 0 \<le> randomIndex \<and> randomIndex < int (length pool)
                  then Some (Some randomIndex,
                         st\<lparr>audioPoolRef := pool[nat randomIndex :=
                              (pool ! nat randomIndex)\<lparr>currentTime := 0, volume := vol,
                                 plays := plays (pool ! nat randomIndex) + 1\<rparr>]\<rparr>,
                         draws')
                  else Some (Some randomIndex, st, draws')))"

text \<open>The state after one flip from the initial state, used to instantiate the theorem.\<close>

definition afterFirstFlip :: sound_state where
  "afterFirstFlip =
     \<lparr>audioPoolRef =
        [\<lparr>src = ''page-flip1-178322.mp3'', volume = 0.2, playbackRate = 1.3, currentTime = 0,
           plays = 0\<rparr>,
         \<lparr>src = ''page-flip2-178323.mp3'', volume = 0.2, playbackRate = 1.3, currentTime = 0,
           plays = 1\<rparr>,
         \<lparr>src = ''small-page-103398.mp3'', volume = 0.2, playbackRate = 1.3, currentTime = 0,
           plays = 0\<rparr>],
      loadedRef = True, lastSoundIndexRef = 1\<rparr>"

section \<open>Backend: documents and categories\<close>

text \<open>
  \<^verbatim>\<open>convex/schema.ts\<close> and \<^verbatim>\<open>convex/documents.ts\<close>. A row of the \<^verbatim>\<open>documents\<close> table
  (\<open>docId\<close> is its \<^verbatim>\<open>_id\<close>) and a row of the \<^verbatim>\<open>categories\<close> table; identifiers are
  natural numbers, \<^verbatim>\<open>v.number()\<close> fields hold integers.
\<close>

record document =
  docId :: nat
  title :: string
  categoryId :: nat
  date :: string
  storageId :: nat
  pageImages :: "nat list option"
  active :: bool
  order :: int
  createdAt :: int

record category =
  name :: string
  description :: "string option"
  active :: bool
  order :: int
  createdAt :: int

text \<open>
  The database \<^verbatim>\<open>ctx.db\<close> with the file storage \<^verbatim>\<open>ctx.storage\<close>: the documents in
  insertion order, \<^verbatim>\<open>ctx.db.get(categoryId)\<close> as a partial map, \<^verbatim>\<open>ctx.storage.getUrl\<close>
  as a partial map, and the next identifier \<^verbatim>\<open>ctx.db.insert\<close> hands out.
\<close>

record database =
  documents :: "document list"
  categories :: "nat \<rightharpoonup> category"
  storageUrl :: "nat \<rightharpoonup> string"
  nextId :: nat

record save_args =
  argTitle :: string
  argCategoryId :: nat
  argStorageId :: nat
  argPageImages :: "nat list option"

text \<open>
  \<^verbatim>\<open>d.order || 0\<close>: a falsy order (0) is replaced by 0.
\<close>

definition orZero :: "int \<Rightarrow> int" where
  "orZero x = (if x = 0 then 0 else x)"

text \<open>
  \<^verbatim>\<open>saveDocument\<close>: the date string and \<^verbatim>\<open>Date.now()\<close> are read from the environment
  (\<open>today\<close>, \<open>now\<close>); \<^verbatim>\<open>allDocs.reduce((max, d) => Math.max(max, d.order || 0), 0)\<close>
  is the left fold. Returns the new identifier and the database.
\<close>

definition saveDocument :: "save_args \<Rightarrow> string \<Rightarrow> int \<Rightarrow> database \<Rightarrow> nat \<times> database" where
  "saveDocument args today now db =
     (let allDocs = documents db;
          maxOrder = foldl (\<lambda>mx d. max mx (orZero (document.order d))) 0 allDocs;
          documentId = nextId db;
          doc = \<lparr>docId = documentId,
                 title = argTitle args,
                 categoryId = argCategoryId args,
                 date = today,
                 storageId = argStorageId args,
                 pageImages = argPageImages args,
                 active = True,
                 order = maxOrder + 1,
                 createdAt = now\<rparr>
      in (documentId, db\<lparr>documents := allDocs @ [doc], nextId := documentId + 1\<rparr>))"

text \<open>
  \<^verbatim>\<open>.withIndex("by_order").collect()\<close>: ascending in \<^verbatim>\<open>order\<close>, rows of equal order in
  creation order (the sort is stable).
\<close>

definition withIndex_by_order :: "document list \<Rightarrow> document list" where
  "withIndex_by_order docs = sort_key document.order docs"

text \<open>
  An entry of the returned list: the document row with the file's URL (\<^verbatim>\<open>url\<close>), the
  URLs of its page images (\<^verbatim>\<open>pageImageUrls\<close>) and the category's name (\<^verbatim>\<open>category\<close>).
\<close>

record document_details =
  doc :: document
  fileUrl :: "string option"
  pageUrls :: "string option list option"
  categoryName :: string

text \<open>
  \<^verbatim>\<open>listActiveDocuments\<close>: filter on the document's flag, look the category up, return
  \<^verbatim>\<open>null\<close> for a missing or inactive one, and drop the nulls (\<^verbatim>\<open>filter(Boolean)\<close>).
\<close>

definition listActiveDocuments :: "database \<Rightarrow> document_details list" where
  "listActiveDocuments db =
     (let docs = filter (\<lambda>d. document.active d = True) (withIndex_by_order (documents db));
          docsWithDetails = map (\<lambda>d.
             (case categories db (categoryId d) of
                None \<Rightarrow> None
              | Some cat \<Rightarrow>
                  if \<not> category.active cat then None
                  else Some \<lparr>doc = d,
                             fileUrl = storageUrl db (storageId d),
                             pageUrls = map_option (map (storageUrl db)) (pageImages d),
                             categoryName = name cat\<rparr>)) docs
      in List.map_filter id docsWithDetails)"

text \<open>
  \<^verbatim>\<open>ctx.db.patch(id, fields)\<close> throws for an identifier that is not in the table, which
  aborts the mutation (\<open>None\<close>). \<^verbatim>\<open>reorder\<close> patches the order of the \<open>index\<close>-th
  identifier to \<open>index\<close>.
\<close>

definition patchDocument :: "nat \<Rightarrow> (document \<Rightarrow> document) \<Rightarrow> database \<Rightarrow> database option" where
  "patchDocument ident f db =
     (if \<exists>d \<in> set (documents db). docId d = ident
      then Some (db\<lparr>documents := map (\<lambda>d. if docId d = ident then f d else d) (documents db)\<rparr>)
      else None)"

fun reorderFrom :: "nat \<Rightarrow> nat list \<Rightarrow> database \<Rightarrow> database option" where
  "reorderFrom index [] db = Some db"
| "reorderFrom index (ident # ids) db =
     (case patchDocument ident (\<lambda>d. d\<lparr>document.order := int index\<rparr>) db of
        None \<Rightarrow> None
      | Some db' \<Rightarrow> reorderFrom (index + 1) ids db')"

definition reorder :: "nat list \<Rightarrow> database \<Rightarrow> database option" where
  "reorder ids db = reorderFrom 0 ids db"

definition ordersNonNegative :: "database \<Rightarrow> bool" where
  "ordersNonNegative db = list_all (\<lambda>d. 0 \<le> document.order d) (documents db)"

definition emptyDatabase :: database where
  "emptyDatabase = \<lparr>documents = [], categories = Map.empty, storageUrl = Map.empty, nextId = 0\<rparr>"

text \<open>Concrete databases used to instantiate the theorems.\<close>

definition exampleDatabase :: database where
  "exampleDatabase = snd (saveDocument
      \<lparr>argTitle = ''B'', argCategoryId = 7, argStorageId = 2, argPageImages = None\<rparr>
      ''2025-01-02'' 1735776000000
      (snd (saveDocument
         \<lparr>argTitle = ''A'', argCategoryId = 7, argStorageId = 1, argPageImages = None\<rparr>
         ''2025-01-01'' 1735689600000 emptyDatabase)))"

definition catalogue :: database where
  "catalogue =
     \<lparr>documents =
        [\<lparr>docId = 0, title = ''A'', categoryId = 7, date = ''2025-01-01'', storageId = 1,
           pageImages = None, active = True, order = 2, createdAt = 1735689600000\<rparr>,
         \<lparr>docId = 1, title = ''B'', categoryId = 8, date = ''2025-01-02'', storageId = 2,
           pageImages = None, active = True, order = 1, createdAt = 1735776000000\<rparr>,
         \<lparr>docId = 2, title = ''C'', categoryId = 9, date = ''2025-01-02'', storageId = 3,
           pageImages = None, active = True, order = 3, createdAt = 1735776000001\<rparr>,
         \<lparr>docId = 3, title = ''D'', categoryId = 7, date = ''2025-01-02'', storageId = 4,
           pageImages = None, active = False, order = 0, createdAt = 1735776000002\<rparr>],
      categories = [7 \<mapsto> \<lparr>name = ''Open'', description = None, active = True,
                            order = 1, createdAt = 1735689500000\<rparr>,
                    8 \<mapsto> \<lparr>name = ''Hidden'', description = None, active = False,
                            order = 2, createdAt = 1735689500001\<rparr>],
      storageUrl = [1 \<mapsto> ''https://files/1''],
      nextId = 4\<rparr>"

section \<open>Properties\<close>

subsection \<open>Image preloader\<close>

lemma take_drop_chain:
  fixes A B C :: nat
  assumes "A \<le> B" "B \<le> C"
  shows "take (B - A) (drop A xs) @ take (C - B) (drop B xs) = take (C - A) (drop A xs)"
proof -
  have "take (C - A) (drop A xs) = take ((B - A) + (C - B)) (drop A xs)"
    using assms by simp
  also have "\<dots> = take (B - A) (drop A xs) @ take (C - B) (drop (B - A) (drop A xs))"
    by (simp only: take_add)
  also have "drop (B - A) (drop A xs) = drop B xs"
    using assms by simp
  finally show ?thesis by simp
qed

lemma slice_append:
  assumes "0 \<le> a" "a \<le> b" "b \<le> c"
  shows "slice xs a b @ slice xs b c = slice xs a c"
proof -
  let ?len = "int (length xs)"
  have "nat (min a ?len) \<le> nat (min b ?len)" "nat (min b ?len) \<le> nat (min c ?len)"
    using assms by simp_all
  from take_drop_chain [OF this, of xs] show ?thesis
    using assms by (simp add: slice_def Let_def nat_diff_distrib')
qed

lemma slice_to_end:
  assumes "0 \<le> a"
  shows "slice xs a (int (length xs)) = drop (nat a) xs"
  using assms by (auto simp: slice_def Let_def min_def)


lemma viewerTiers_concat:
  assumes ip: "0 \<le> initialPages"
    and s: "max 0 (currentPage - 1) \<le> int (length (filter truthy pageImageUrls))"
  shows "criticalUrls (viewerTiers pageImageUrls currentPage initialPages)
       @ highUrls (viewerTiers pageImageUrls currentPage initialPages)
       @ lowUrls (viewerTiers pageImageUrls currentPage initialPages)
       @ idleUrls (viewerTiers pageImageUrls currentPage initialPages)
     = drop (nat (currentPage - 1)) (map the (filter truthy pageImageUrls))"
proof (cases "filter truthy pageImageUrls = []")
  case True
  then show ?thesis by (simp add: viewerTiers_def)
next
  case False
  define valid where "valid = map the (filter truthy pageImageUrls)"
  define n where "n = int (length valid)"
  define cs where "cs = max 0 (currentPage - 1)"
  define ce where "ce = min n (cs + initialPages)"
  define he where "he = min n (ce + 2)"
  define le where "le = min n (he + 4)"
  have sn: "cs \<le> n" using s by (simp add: cs_def n_def valid_def)
  have order: "0 \<le> cs" "cs \<le> ce" "ce \<le> he" "he \<le> le" "le \<le> n"
    using ip sn by (simp_all add: cs_def ce_def he_def le_def)
  have t: "viewerTiers pageImageUrls currentPage initialPages
      = \<lparr>criticalUrls = slice valid cs ce, highUrls = slice valid ce he,
         lowUrls = slice valid he le, idleUrls = slice valid le n\<rparr>"
    using False by (simp add: viewerTiers_def Let_def valid_def n_def cs_def ce_def he_def le_def)
  have "slice valid cs ce @ slice valid ce he @ slice valid he le @ slice valid le n
      = slice valid cs n"
    using order by (simp add: slice_append)
  also have "\<dots> = drop (nat cs) valid"
    unfolding n_def using order(1) by (rule slice_to_end)
  also have "nat cs = nat (currentPage - 1)" by (simp add: cs_def)
  finally show ?thesis by (simp add: t valid_def)
qed

lemma valid_tail:
  assumes "k \<le> length urls" and "\<forall>u \<in> set (take k urls). truthy u"
  shows "drop k (map the (filter truthy urls)) = map the (filter truthy (drop k urls))"
proof -
  have "filter truthy urls = filter truthy (take k urls) @ filter truthy (drop k urls)"
    by (metis append_take_drop_id filter_append)
  moreover have "filter truthy (take k urls) = take k urls"
    using assms(2) by (simp add: filter_id_conv)
  moreover have "length (take k urls) = k" using assms(1) by simp
  ultimately show ?thesis by (simp add: drop_map)
qed

lemma valid_prefix_length:
  assumes "k \<le> length urls" and "\<forall>u \<in> set (take k urls). truthy u"
  shows "k \<le> length (filter truthy urls)"
proof -
  have "filter truthy urls = filter truthy (take k urls) @ filter truthy (drop k urls)"
    by (metis append_take_drop_id filter_append)
  moreover have "filter truthy (take k urls) = take k urls"
    using assms(2) by (simp add: filter_id_conv)
  ultimately show ?thesis using assms(1) by simp
qed

lemma set_valid: "set (map the (filter truthy urls)) = {u. u \<noteq> [] \<and> Some u \<in> set urls}"
  by (force simp: truthy_def split: option.splits)

lemma distinct_valid:
  "distinct (filter truthy urls) \<Longrightarrow> distinct (map the (filter truthy urls))"
  by (auto simp: distinct_map inj_on_def truthy_def split: option.splits)

text \<open>
  C1 (amended): for every page list, every current page between 1 and its length and
  every non-negative \<open>initialPages\<close>, when no entry before position \<open>currentPage - 1\<close> is
  null or empty and the non-null URLs from that position on are pairwise distinct, the
  four tiers are pairwise disjoint and their union is exactly the set of non-null,
  non-empty URLs at positions \<open>currentPage - 1\<close> to the end; no null is dispatched.
\<close>

theorem C1_tiers_partition:
  assumes "1 \<le> currentPage" and "currentPage \<le> int (length pageImageUrls)"
    and "0 \<le> initialPages"
    and "\<forall>u \<in> set (take (nat (currentPage - 1)) pageImageUrls). truthy u"
    and "distinct (filter truthy (drop (nat (currentPage - 1)) pageImageUrls))"
  shows "set (criticalUrls (viewerTiers pageImageUrls currentPage initialPages))
           \<inter> set (highUrls (viewerTiers pageImageUrls currentPage initialPages)) = {}
       \<and> set (criticalUrls (viewerTiers pageImageUrls currentPage initialPages))
           \<inter> set (lowUrls (viewerTiers pageImageUrls currentPage initialPages)) = {}
       \<and> set (criticalUrls (viewerTiers pageImageUrls currentPage initialPages))
           \<inter> set (idleUrls (viewerTiers pageImageUrls currentPage initialPages)) = {}
       \<and> set (highUrls (viewerTiers pageImageUrls currentPage initialPages))
           \<inter> set (lowUrls (viewerTiers pageImageUrls currentPage initialPages)) = {}
       \<and> set (highUrls (viewerTiers pageImageUrls currentPage initialPages))
           \<inter> set (idleUrls (viewerTiers pageImageUrls currentPage initialPages)) = {}
       \<and> set (lowUrls (viewerTiers pageImageUrls currentPage initialPages))
           \<inter> set (idleUrls (viewerTiers pageImageUrls currentPage initialPages)) = {}
       \<and> set (criticalUrls (viewerTiers pageImageUrls currentPage initialPages))
           \<union> set (highUrls (viewerTiers pageImageUrls currentPage initialPages))
           \<union> set (lowUrls (viewerTiers pageImageUrls currentPage initialPages))
           \<union> set (idleUrls (viewerTiers pageImageUrls currentPage initialPages))
         = {u. u \<noteq> [] \<and> Some u \<in> set (drop (nat (currentPage - 1)) pageImageUrls)}"
proof -
  define k where "k = nat (currentPage - 1)"
  define t where "t = viewerTiers pageImageUrls currentPage initialPages"
  have k: "k \<le> length pageImageUrls" using assms(1,2) by (simp add: k_def)
  have pre: "\<forall>u \<in> set (take k pageImageUrls). truthy u" using assms(4) by (simp add: k_def)
  have "int k \<le> int (length (filter truthy pageImageUrls))"
    using valid_prefix_length [OF k pre] by simp
  then have s: "max 0 (currentPage - 1) \<le> int (length (filter truthy pageImageUrls))"
    using assms(1) by (simp add: k_def)
  have cat: "criticalUrls t @ highUrls t @ lowUrls t @ idleUrls t
      = map the (filter truthy (drop k pageImageUrls))"
    unfolding t_def using viewerTiers_concat [OF assms(3) s] valid_tail [OF k pre]
    by (simp add: k_def)
  have "distinct (map the (filter truthy (drop k pageImageUrls)))"
    using assms(5) unfolding k_def by (rule distinct_valid)
  then have d: "distinct (criticalUrls t @ highUrls t @ lowUrls t @ idleUrls t)"
    by (simp only: cat)
  have u: "set (criticalUrls t) \<union> set (highUrls t) \<union> set (lowUrls t) \<union> set (idleUrls t)
      = {u. u \<noteq> [] \<and> Some u \<in> set (drop k pageImageUrls)}"
    using arg_cong [OF cat, of set] by (simp only: set_valid set_append Un_assoc)
  from d have "set (criticalUrls t) \<inter> set (highUrls t) = {}"
    "set (criticalUrls t) \<inter> set (lowUrls t) = {}"
    "set (criticalUrls t) \<inter> set (idleUrls t) = {}"
    "set (highUrls t) \<inter> set (lowUrls t) = {}"
    "set (highUrls t) \<inter> set (idleUrls t) = {}"
    "set (lowUrls t) \<inter> set (idleUrls t) = {}"
    by auto
  with u show ?thesis unfolding t_def k_def by simp
qed

lemma tiers_pages3:
  "viewerTiers pages3 2 1
     = \<lparr>criticalUrls = [''p3.png''], highUrls = [], lowUrls = [], idleUrls = []\<rparr>"
  by code_simp

lemma tiers_pagesDup:
  "viewerTiers pagesDup 1 1
     = \<lparr>criticalUrls = [''p1.png''], highUrls = [''p1.png''], lowUrls = [], idleUrls = []\<rparr>"
  by code_simp

lemma tiers_pages10:
  "viewerTiers pages10 2 2 =
     \<lparr>criticalUrls = [''p2.png'', ''p3.png''], highUrls = [''p4.png'', ''p6.png''],
      lowUrls = [''p7.png'', ''p8.png'', ''p9.png'', ''p10.png''], idleUrls = []\<rparr>"
  by code_simp

text \<open>
  C1 (as stated, refuted). With the pages \<open>[null, p2, p3]\<close>, current page 2 and one page
  per spread, the URL \<open>p2\<close> at position 1 is not in any tier: the tiers are cut from the
  list without its nulls, at the index of the list with them. With the pages
  \<open>[p1, p1]\<close> the critical and the high tier both hold \<open>p1\<close>.
\<close>

theorem C1_partition_counterexample:
  "pages3 ! 1 = Some ''p2.png''
   \<and> ''p2.png'' \<notin> set (criticalUrls (viewerTiers pages3 2 1)) \<union> set (highUrls (viewerTiers pages3 2 1))
        \<union> set (lowUrls (viewerTiers pages3 2 1)) \<union> set (idleUrls (viewerTiers pages3 2 1))
   \<and> set (criticalUrls (viewerTiers pagesDup 1 1)) \<inter> set (highUrls (viewerTiers pagesDup 1 1)) \<noteq> {}"
  by (simp add: tiers_pages3 tiers_pagesDup) (simp add: pages3_def)

theorem C1_tiers_partition_witness:
  "viewerTiers pages10 2 2 =
     \<lparr>criticalUrls = [''p2.png'', ''p3.png''], highUrls = [''p4.png'', ''p6.png''],
      lowUrls = [''p7.png'', ''p8.png'', ''p9.png'', ''p10.png''], idleUrls = []\<rparr>
   \<and> set (criticalUrls (viewerTiers pages10 2 2)) \<inter> set (highUrls (viewerTiers pages10 2 2)) = {}
   \<and> set (criticalUrls (viewerTiers pages10 2 2)) \<union> set (highUrls (viewerTiers pages10 2 2))
        \<union> set (lowUrls (viewerTiers pages10 2 2)) \<union> set (idleUrls (viewerTiers pages10 2 2))
      = {u. u \<noteq> [] \<and> Some u \<in> set (drop (nat (2 - 1)) pages10)}"
proof -
  have h: "(1::int) \<le> 2" "2 \<le> int (length pages10)" "(0::int) \<le> 2"
    "\<forall>u \<in> set (take (nat (2 - 1)) pages10). truthy u"
    "distinct (filter truthy (drop (nat (2 - 1)) pages10))"
    by (simp_all add: pages10_def truthy_def)
  note r = C1_tiers_partition [OF h]
  show ?thesis
    by (insert r tiers_pages10, elim conjE, intro conjI) assumption+
qed

lemma preloadImage_props:
  assumes "preloadImage net u st = (outcome, fetched, st')"
  shows "set fetched \<subseteq> {u} - loadedImages st"
    and "loadedImages st' \<subseteq> loadedImages st \<union> set fetched"
    and "loadedImages st \<subseteq> loadedImages st'"
    and "pendingTasks st' = pendingTasks st" and "abortRef st' = abortRef st"
    and "u \<notin> loadedImages st \<Longrightarrow> fetched = [u]"
  using assms by (auto simp: preloadImage_def split: if_splits)

lemma preloadSequential_props:
  assumes "preloadSequential net vs st = (fetched, st')"
  shows "set fetched \<subseteq> set vs - loadedImages st
       \<and> loadedImages st' \<subseteq> loadedImages st \<union> set fetched
       \<and> loadedImages st \<subseteq> loadedImages st'
       \<and> pendingTasks st' = pendingTasks st \<and> abortRef st' = abortRef st"
  using assms
proof (induction vs arbitrary: st fetched st')
  case Nil
  then show ?case by simp
next
  case (Cons v vs)
  show ?case
  proof (cases "abortRef st")
    case True
    with Cons.prems show ?thesis by simp
  next
    case False
    obtain outcome f1 st1 where p: "preloadImage net v st = (outcome, f1, st1)"
      by (cases "preloadImage net v st") auto
    obtain f2 st2 where q: "preloadSequential net vs st1 = (f2, st2)"
      by (cases "preloadSequential net vs st1") auto
    from Cons.prems False p q have r: "fetched = f1 @ f2" "st' = st2" by simp_all
    note a = preloadImage_props [OF p] and b = Cons.IH [OF q]
    from a(1,2,3,4,5) b show ?thesis unfolding r by auto
  qed
qed


lemma preload_props:
  assumes "preload net urls prio st = (fetched, sched, st')"
  shows "set fetched \<subseteq> {u \<in> set urls. u \<noteq> [] \<and> u \<notin> loadedImages st}
       \<and> (\<exists>new. pendingTasks st' = pendingTasks st @ new
              \<and> (\<forall>t \<in> set new. preload_task.url t \<in> set urls \<and> preload_task.url t \<noteq> [] \<and> preload_task.url t \<notin> loadedImages st
                     \<and> status t = Pending))
       \<and> loadedImages st' \<subseteq> loadedImages st \<union> set fetched
       \<and> loadedImages st \<subseteq> loadedImages st'
       \<and> abortRef st' = abortRef st"
proof (cases "filter (\<lambda>u. u \<noteq> [] \<and> u \<notin> loadedImages st) urls = []")
  case True
  with assms show ?thesis by (simp add: preload_def)
next
  case False
  let ?valid = "filter (\<lambda>u. u \<noteq> [] \<and> u \<notin> loadedImages st) urls"
  show ?thesis
  proof (cases prio)
    case Critical
    with assms False show ?thesis by (auto simp: preload_def)
  next
    case High
    obtain f2 st2 where q: "preloadSequential net ?valid st = (f2, st2)"
      by (cases "preloadSequential net ?valid st") auto
    with assms False High have r: "fetched = f2" "st' = st2" by (simp_all add: preload_def)
    from preloadSequential_props [OF q] show ?thesis unfolding r by auto
  next
    case Low
    with assms False show ?thesis by (auto simp: preload_def)
  next
    case Idle
    with assms False show ?thesis
      by (auto simp: preload_def processIdleTasks_def Let_def split: if_splits)
  qed
qed

text \<open>
  C2 (as stated, refuted): two successive \<^verbatim>\<open>preload([u], 'low')\<close> calls for a URL that is
  not loaded leave two tasks for it in the queue; \<^verbatim>\<open>preload\<close> never looks at the queue.
\<close>

theorem C2_queue_counterexample:
  "map preload_task.url (pendingTasks (snd (snd (preload allLoad [''p1.png''] Low
       (snd (snd (preload allLoad [''p1.png''] Low initialPreloader)))))))
     = [''p1.png'', ''p1.png'']"
  by (simp add: preload_def initialPreloader_def)

text \<open>
  C2 (amended): for every list of URLs and every priority, every URL that \<^verbatim>\<open>preload\<close>
  fetches or enqueues is one of the given URLs, is not empty and is not in the loaded
  cache at the call; the queue only grows at its end. The pending queue is not
  consulted: two successive \<^verbatim>\<open>preload([u], 'low')\<close> calls for a non-empty URL that is not
  loaded append two tasks for it.
\<close>

theorem C2_preload_skips_loaded:
  "(preload net urls prio st = (fetched, sched, st') \<longrightarrow>
      (\<forall>u \<in> set fetched. u \<in> set urls \<and> u \<noteq> [] \<and> u \<notin> loadedImages st)
    \<and> (\<exists>new. pendingTasks st' = pendingTasks st @ new
           \<and> (\<forall>t \<in> set new. preload_task.url t \<in> set urls \<and> preload_task.url t \<noteq> [] \<and> preload_task.url t \<notin> loadedImages st)))
   \<and> (u \<noteq> [] \<longrightarrow> u \<notin> loadedImages st \<longrightarrow>
        pendingTasks (snd (snd (preload net' [u] Low (snd (snd (preload net [u] Low st))))))
          = pendingTasks st @ [\<lparr>url = u, priority = Low, status = Pending\<rparr>,
                               \<lparr>url = u, priority = Low, status = Pending\<rparr>])"
proof (intro conjI impI)
  assume p: "preload net urls prio st = (fetched, sched, st')"
  from preload_props [OF p]
  show "\<forall>u \<in> set fetched. u \<in> set urls \<and> u \<noteq> [] \<and> u \<notin> loadedImages st" by auto
  from preload_props [OF p]
  show "\<exists>new. pendingTasks st' = pendingTasks st @ new
           \<and> (\<forall>t \<in> set new. preload_task.url t \<in> set urls \<and> preload_task.url t \<noteq> [] \<and> preload_task.url t \<notin> loadedImages st)"
    by blast
next
  assume "u \<noteq> []" "u \<notin> loadedImages st"
  then show "pendingTasks (snd (snd (preload net' [u] Low (snd (snd (preload net [u] Low st))))))
          = pendingTasks st @ [\<lparr>url = u, priority = Low, status = Pending\<rparr>,
                               \<lparr>url = u, priority = Low, status = Pending\<rparr>]"
    by (simp add: preload_def)
qed

theorem C2_preload_skips_loaded_witness:
  "preload allLoad [''p1.png'', ''p2.png''] Critical cachedP1
     = ([''p2.png''], [], cachedP1\<lparr>loadedImages := {''p1.png'', ''p2.png''}\<rparr>)
   \<and> ''p2.png'' \<in> set [''p1.png'', ''p2.png''] \<and> ''p2.png'' \<noteq> []
   \<and> ''p2.png'' \<notin> loadedImages cachedP1
   \<and> pendingTasks (snd (snd (preload allLoad [''p2.png''] Low
         (snd (snd (preload allLoad [''p2.png''] Low cachedP1))))))
       = pendingTasks cachedP1 @ [\<lparr>url = ''p2.png'', priority = Low, status = Pending\<rparr>,
                                  \<lparr>url = ''p2.png'', priority = Low, status = Pending\<rparr>]"
proof -
  have e: "preload allLoad [''p1.png'', ''p2.png''] Critical cachedP1
     = ([''p2.png''], [], cachedP1\<lparr>loadedImages := {''p1.png'', ''p2.png''}\<rparr>)"
    by (auto simp: preload_def cachedP1_def allLoad_def)
  have n: "''p2.png'' \<noteq> []" "''p2.png'' \<notin> loadedImages cachedP1"
    by (simp_all add: cachedP1_def)
  note r = C2_preload_skips_loaded [of allLoad "[''p1.png'', ''p2.png'']" Critical cachedP1
      "[''p2.png'']" "[]" "cachedP1\<lparr>loadedImages := {''p1.png'', ''p2.png''}\<rparr>"
      "''p2.png''" allLoad]
  from r e have "\<forall>u \<in> set [''p2.png'']. u \<in> set [''p1.png'', ''p2.png''] \<and> u \<noteq> []
         \<and> u \<notin> loadedImages cachedP1"
    by blast
  then have "''p2.png'' \<in> set [''p1.png'', ''p2.png''] \<and> ''p2.png'' \<noteq> []
      \<and> ''p2.png'' \<notin> loadedImages cachedP1"
    by simp
  moreover from r n have "pendingTasks (snd (snd (preload allLoad [''p2.png''] Low
         (snd (snd (preload allLoad [''p2.png''] Low cachedP1))))))
       = pendingTasks cachedP1 @ [\<lparr>url = ''p2.png'', priority = Low, status = Pending\<rparr>,
                                  \<lparr>url = ''p2.png'', priority = Low, status = Pending\<rparr>]"
    by blast
  ultimately show ?thesis using e by blast
qed

text \<open>
  The queue is drained: a pending task of an uncached URL is fetched by the callbacks
  waiting, once a drain is among them and the idle periods suffice.
\<close>

lemma fetchStarted_pendingTasks [simp]:
  "fetchStarted u (st\<lparr>pendingTasks := q\<rparr>) = fetchStarted u st"
  by (simp add: fetchStarted_def)



lemma settle_props [simp]:
  "pendingTasks (settle net f st) = pendingTasks st"
  "abortRef (settle net f st) = abortRef st"
  "isIdleLoading (settle net f st) = isIdleLoading st"
  "loadedImages (settle net f st) = loadedImages st \<union> set (filter net f)"
  by (simp_all add: settle_def)





















subsection \<open>Lazy page rendering\<close>

lemma rawSheet_ahead_iff:
  "rawSheet_ahead m p i = PdfPage (i + 1) \<longleftrightarrow> i < (if m = Double then 2 else 1) \<or> i \<le> (p - 1) + 2"
  by (simp add: rawSheet_ahead_def shouldRenderPage_ahead_def PRELOAD_AHEAD_def)



subsection \<open>Double tap\<close>



subsection \<open>Layout calculation\<close>


text \<open>
  Rounding to double precision is monotone on the positive reals and leaves every
  \<open>m * 2 ^ k\<close> with \<open>0 < m < 2 ^ 53\<close> unchanged; inside one binade it rounds the
  significand.
\<close>

lemma roundHalfEven_of_int [simp]: "roundHalfEven (real_of_int n) = n"
  by (simp add: roundHalfEven_def)

lemma roundHalfEven_bounds:
  "real_of_int (roundHalfEven y) \<le> y + 1 / 2" "y - 1 / 2 \<le> real_of_int (roundHalfEven y)"
  unfolding roundHalfEven_def Let_def by (auto; linarith)+

lemma roundHalfEven_mono:
  assumes "x \<le> y"
  shows "roundHalfEven x \<le> roundHalfEven y"
proof (cases "\<lfloor>x\<rfloor> = \<lfloor>y\<rfloor>")
  case True
  with assms show ?thesis
    unfolding roundHalfEven_def Let_def by (auto simp: True)
next
  case False
  with assms have lt: "\<lfloor>x\<rfloor> + 1 \<le> \<lfloor>y\<rfloor>"
    using floor_mono [OF assms] by linarith
  have "roundHalfEven x \<le> \<lfloor>x\<rfloor> + 1"
    unfolding roundHalfEven_def Let_def by auto
  moreover have "\<lfloor>y\<rfloor> \<le> roundHalfEven y"
    unfolding roundHalfEven_def Let_def by auto
  ultimately show ?thesis using lt by linarith
qed

lemma ulp_pos [simp]: "0 < ulp x"
  by (simp add: ulp_def)

lemma expo_bounds:
  assumes "0 < x"
  shows "2 powr real_of_int \<lfloor>log 2 x\<rfloor> \<le> x" "x < 2 powr real_of_int (\<lfloor>log 2 x\<rfloor> + 1)"
  using floor_log_eq_powr_iff [of x 2 "\<lfloor>log 2 x\<rfloor>"] assms by simp_all

lemma mantissa_bounds:
  assumes "0 < x"
  shows "2 ^ 52 \<le> x / ulp x" "x / ulp x < 2 ^ 53"
proof -
  let ?e = "\<lfloor>log 2 x\<rfloor>"
  have u: "ulp x = 2 powr real_of_int ?e / 2 ^ 52"
    using assms by (simp add: ulp_def powr_diff powr_realpow [symmetric] del: powr_numeral)
  from expo_bounds [OF assms]
  have "2 powr real_of_int ?e \<le> x" "x < 2 * 2 powr real_of_int ?e"
    by (simp_all add: powr_add)
  then show "2 ^ 52 \<le> x / ulp x" "x / ulp x < 2 ^ 53"
    unfolding u by (simp_all add: field_simps)
qed


lemma float64_pos_eq:
  "0 < x \<Longrightarrow> float64 x = real_of_int (roundHalfEven (x / ulp x)) * ulp x"
  by (simp add: float64_def)

lemma float64_range:
  assumes "0 < x"
  shows "2 powr real_of_int \<lfloor>log 2 x\<rfloor> \<le> float64 x"
    and "float64 x \<le> 2 powr real_of_int (\<lfloor>log 2 x\<rfloor> + 1)"
proof -
  let ?e = "\<lfloor>log 2 x\<rfloor>"
  have u: "ulp x = 2 powr real_of_int ?e / 2 ^ 52"
    using assms by (simp add: ulp_def powr_diff powr_realpow [symmetric] del: powr_numeral)
  from mantissa_bounds [OF assms]
  have "roundHalfEven (real_of_int (2 ^ 52)) \<le> roundHalfEven (x / ulp x)"
    "roundHalfEven (x / ulp x) \<le> roundHalfEven (real_of_int (2 ^ 53))"
    by (intro roundHalfEven_mono; simp)+
  then have "2 ^ 52 \<le> roundHalfEven (x / ulp x)" "roundHalfEven (x / ulp x) \<le> 2 ^ 53"
    by (simp_all only: roundHalfEven_of_int)
  then have "real_of_int (2 ^ 52) \<le> real_of_int (roundHalfEven (x / ulp x))"
    "real_of_int (roundHalfEven (x / ulp x)) \<le> real_of_int (2 ^ 53)"
    by (simp_all only: of_int_le_iff)
  then have "2 ^ 52 \<le> real_of_int (roundHalfEven (x / ulp x))"
    "real_of_int (roundHalfEven (x / ulp x)) \<le> 2 ^ 53"
    by simp_all
  then have "2 ^ 52 * ulp x \<le> float64 x" "float64 x \<le> 2 ^ 53 * ulp x"
    using assms by (simp_all add: float64_pos_eq)
  then show "2 powr real_of_int ?e \<le> float64 x"
    "float64 x \<le> 2 powr real_of_int (?e + 1)"
    unfolding u by (simp_all add: powr_add)
qed

lemma float64_mono:
  assumes "0 < x" and "x \<le> y"
  shows "float64 x \<le> float64 y"
proof -
  have y: "0 < y" using assms by simp
  have le: "\<lfloor>log 2 x\<rfloor> \<le> \<lfloor>log 2 y\<rfloor>"
    using assms by (intro floor_mono) simp
  show ?thesis
  proof (cases "\<lfloor>log 2 x\<rfloor> = \<lfloor>log 2 y\<rfloor>")
    case True
    then have u: "ulp x = ulp y" using assms y by (simp add: ulp_def)
    have "x / ulp y \<le> y / ulp y"
      using assms(2) by (intro divide_right_mono) (simp_all add: less_imp_le)
    then have "roundHalfEven (x / ulp y) \<le> roundHalfEven (y / ulp y)"
      by (rule roundHalfEven_mono)
    then have "real_of_int (roundHalfEven (x / ulp y)) * ulp y
        \<le> real_of_int (roundHalfEven (y / ulp y)) * ulp y"
      by (simp add: mult_right_mono)
    then show ?thesis using assms(1) y by (simp add: float64_pos_eq u)
  next
    case False
    with le have "\<lfloor>log 2 x\<rfloor> + 1 \<le> \<lfloor>log 2 y\<rfloor>" by simp
    then have "(2::real) powr real_of_int (\<lfloor>log 2 x\<rfloor> + 1) \<le> 2 powr real_of_int \<lfloor>log 2 y\<rfloor>"
      by (intro powr_mono) simp_all
    with float64_range(2) [OF assms(1)] float64_range(1) [OF y] show ?thesis by linarith
  qed
qed

lemma float64_exact:
  assumes m: "0 < m" "m < 2 ^ 53" and x: "x = real_of_int m * 2 powr real_of_int k"
  shows "float64 x = x"
proof -
  have pos: "0 < x" using m by (simp add: x)
  let ?e = "\<lfloor>log 2 x\<rfloor>"
  have "2 powr real_of_int ?e \<le> x" using expo_bounds(1) [OF pos] .
  also have "x < 2 ^ 53 * 2 powr real_of_int k"
  proof -
    have "real_of_int m < real_of_int (2 ^ 53)" using m(2) by (simp only: of_int_less_iff)
    then have "real_of_int m < 2 ^ 53" by simp
    then show ?thesis unfolding x by (intro mult_strict_right_mono) simp_all
  qed
  also have "\<dots> = 2 powr real_of_int (53 + k)"
    by (simp add: powr_add powr_realpow [symmetric] del: powr_numeral)
  finally have "real_of_int ?e < real_of_int (53 + k)" by simp
  then have d: "0 \<le> k - (?e - 52)" by linarith
  have "x / ulp x = real_of_int m * 2 powr (real_of_int k - real_of_int (?e - 52))"
    using pos by (simp add: ulp_def x powr_diff)
  also have "real_of_int k - real_of_int (?e - 52) = real (nat (k - (?e - 52)))"
    using d by simp
  also have "2 powr real (nat (k - (?e - 52))) = real_of_int (2 ^ nat (k - (?e - 52)))"
    by (simp add: powr_realpow)
  finally have "x / ulp x = real_of_int (m * 2 ^ nat (k - (?e - 52)))" by simp
  then have "roundHalfEven (x / ulp x) = m * 2 ^ nat (k - (?e - 52))"
    by (simp only: roundHalfEven_of_int)
  then have "float64 x = real_of_int (m * 2 ^ nat (k - (?e - 52))) * ulp x"
    using pos by (simp add: float64_pos_eq)
  also have "\<dots> = (x / ulp x) * ulp x"
    using \<open>x / ulp x = real_of_int (m * 2 ^ nat (k - (?e - 52)))\<close> by simp
  finally show ?thesis using ulp_pos [of x] by simp
qed

lemma float64_of_int: "0 < m \<Longrightarrow> m < 2 ^ 53 \<Longrightarrow> float64 (real_of_int m) = real_of_int m"
  using float64_exact [of m "real_of_int m" 0] by simp

lemma float64_half: "0 < m \<Longrightarrow> m < 2 ^ 53 \<Longrightarrow> float64 (real_of_int m / 2) = real_of_int m / 2"
  using float64_exact [of m "real_of_int m / 2" "- 1"] by simp

lemma float64_dyadic:
  "0 < m \<Longrightarrow> m < 2 ^ 53 \<Longrightarrow> float64 (real_of_int m / 2 ^ k) = real_of_int m / 2 ^ k"
  using float64_exact [of m "real_of_int m / 2 ^ k" "- int k"]
  by (simp add: powr_minus powr_realpow field_simps)

lemma float64_binade:
  assumes "2 powr real_of_int e \<le> x" and "x < 2 powr real_of_int (e + 1)"
  shows "float64 x = real_of_int (roundHalfEven (x / 2 powr real_of_int (e - 52)))
                       * 2 powr real_of_int (e - 52)"
proof -
  have pos: "0 < x" using assms(1) powr_gt_zero [of 2 "real_of_int e"] by linarith
  have "\<lfloor>log 2 x\<rfloor> = e"
    using floor_log_eq_powr_iff [of x 2 e] pos assms by simp
  then have "ulp x = 2 powr real_of_int (e - 52)" using pos by (simp add: ulp_def)
  then show ?thesis using pos by (simp add: float64_pos_eq)
qed

lemma default_ratio_bounds:
  "11583 / 8192 \<le> float64 1.414" "float64 1.414 \<le> 181 / 128"
proof -
  have "float64 (real_of_int 11583 / 2 ^ 13) \<le> float64 1.414"
    by (intro float64_mono) simp_all
  moreover have "float64 (real_of_int 11583 / 2 ^ 13) = real_of_int 11583 / 2 ^ 13"
    by (intro float64_dyadic) simp_all
  ultimately show "11583 / 8192 \<le> float64 1.414" by simp
  have "float64 1.414 \<le> float64 (real_of_int 181 / 2 ^ 7)"
    by (intro float64_mono) simp_all
  moreover have "float64 (real_of_int 181 / 2 ^ 7) = real_of_int 181 / 2 ^ 7"
    by (intro float64_dyadic) simp_all
  ultimately show "float64 1.414 \<le> 181 / 128" by simp
qed

lemma float64_between:
  assumes "0 < a" "a < 2 ^ 53" "0 < b" "b < 2 ^ 53"
    and "real_of_int a / 2 ^ j \<le> x" "x \<le> real_of_int b / 2 ^ k"
  shows "real_of_int a / 2 ^ j \<le> float64 x" "float64 x \<le> real_of_int b / 2 ^ k"
proof -
  have "0 < real_of_int a / 2 ^ j" using assms(1) by simp
  from float64_mono [OF this assms(5)] float64_dyadic [OF assms(1,2), of j]
  show "real_of_int a / 2 ^ j \<le> float64 x" by simp
  have "0 < x" using \<open>0 < real_of_int a / 2 ^ j\<close> assms(5) by linarith
  from float64_mono [OF this assms(6)] float64_dyadic [OF assms(3,4), of k]
  show "float64 x \<le> real_of_int b / 2 ^ k" by simp
qed


lemma layout_float64_vector:
  assumes "11583 / 8192 \<le> R" "R \<le> 181 / 128"
  shows "calculateLayout_float64 1200 800 1400 R = (Double, \<lparr>width = 523, height = 740\<rparr>)"
proof -
  have R: "0 < R" using assms(1) by simp
  have "real_of_int 2093 / 2 ^ 2 \<le> 740 / R" "740 / R \<le> real_of_int 1047 / 2 ^ 1"
    using assms R by (simp_all add: field_simps)
  from float64_between [OF _ _ _ _ this]
  have q: "2093 / 4 \<le> float64 (740 / R)" "float64 (740 / R) \<le> 1047 / 2" by simp_all
  have "real_of_int 282 / 2 ^ 0 \<le> 200 * R" "200 * R \<le> real_of_int 283 / 2 ^ 0"
    using assms by simp_all
  from float64_between [OF _ _ _ _ this]
  have c: "float64 (200 * R) \<le> 283" by simp
  have f: "\<lfloor>float64 (740 / R)\<rfloor> = 523" using q by (simp add: floor_eq_iff)
  show ?thesis
    using q c f by (simp add: calculateLayout_float64_def Let_def)
qed

lemma layout_float64_tiny:
  assumes "11583 / 8192 \<le> R" "R \<le> 181 / 128"
  shows "width (snd (calculateLayout_float64 100 100 windowW R)) = 200"
proof -
  have R: "0 < R" using assms(1) by simp
  have "real_of_int 28 / 2 ^ 0 \<le> 40 / R" "40 / R \<le> real_of_int 29 / 2 ^ 0"
    using assms R by (simp_all add: field_simps)
  from float64_between [OF _ _ _ _ this]
  have d: "28 \<le> float64 (40 / R)" by simp
  have "real_of_int 42 / 2 ^ 0 \<le> 60 / R" "60 / R \<le> real_of_int 43 / 2 ^ 0"
    using assms R by (simp_all add: field_simps)
  from float64_between [OF _ _ _ _ this]
  have s: "float64 (60 / R) \<le> 43" by simp
  show ?thesis
    using d s by (simp add: calculateLayout_float64_def Let_def)
qed


lemma layout_float64_fit:
  assumes R: "0 < RATIO" and cw: "containerW < 2 ^ 53" and ch: "containerH < 2 ^ 53"
    and mH: "maxH = (if windowW < 1024 then real_of_int containerH - 40
                     else real_of_int containerH - 60)"
    and mW: "maxW = (if windowW < 1024 then real_of_int containerW - 40
                     else (real_of_int containerW - 80) / 2)"
    and bW: "200 \<le> maxW" and bH: "200 * RATIO \<le> maxH"
  shows "calculateLayout_float64 containerW containerH windowW RATIO
       = (if windowW < 1024 then Single else Double,
          if float64 (maxH / RATIO) > maxW
          then \<lparr>width = \<lfloor>maxW\<rfloor>, height = \<lfloor>float64 (maxW * RATIO)\<rfloor>\<rparr>
          else \<lparr>width = \<lfloor>float64 (maxH / RATIO)\<rfloor>, height = \<lfloor>maxH\<rfloor>\<rparr>)"
    and "float64 (maxH / RATIO) > maxW \<Longrightarrow> float64 (maxW * RATIO) \<le> maxH"
    and "\<not> float64 (maxH / RATIO) > maxW \<Longrightarrow> float64 (maxH / RATIO) \<le> maxW"
proof -
  have "0 < 200 * RATIO" using R by simp
  with bH have pH: "0 < maxH" by linarith
  have eH: "float64 maxH = maxH"
  proof (cases "windowW < 1024")
    case True
    then have "maxH = real_of_int (containerH - 40)" by (simp add: mH)
    moreover from this pH ch have "0 < containerH - 40" "containerH - 40 < 2 ^ 53" by simp_all
    ultimately show ?thesis by (simp only: float64_of_int)
  next
    case False
    then have "maxH = real_of_int (containerH - 60)" by (simp add: mH)
    moreover from this pH ch have "0 < containerH - 60" "containerH - 60 < 2 ^ 53" by simp_all
    ultimately show ?thesis by (simp only: float64_of_int)
  qed
  have eW: "float64 maxW = maxW"
  proof (cases "windowW < 1024")
    case True
    then have "maxW = real_of_int (containerW - 40)" by (simp add: mW)
    moreover from this bW cw have "0 < containerW - 40" "containerW - 40 < 2 ^ 53" by simp_all
    ultimately show ?thesis by (simp only: float64_of_int)
  next
    case False
    then have "maxW = real_of_int (containerW - 80) / 2" by (simp add: mW)
    moreover from this bW cw have "0 < containerW - 80" "containerW - 80 < 2 ^ 53" by simp_all
    ultimately show ?thesis by (simp only: float64_half)
  qed
  have e200: "float64 200 = 200" using float64_of_int [of 200] by simp
  have "200 \<le> maxH / RATIO" using R bH by (simp add: field_simps)
  from float64_mono [OF _ this] e200 have c1: "200 \<le> float64 (maxH / RATIO)" by simp
  have "0 < 200 * RATIO" using R by simp
  from float64_mono [OF this bH] eH have c2: "float64 (200 * RATIO) \<le> maxH" by simp
  have wf: "float64 (maxW * RATIO) \<le> maxH \<and> float64 (200 * RATIO) \<le> float64 (maxW * RATIO)"
    if gt: "float64 (maxH / RATIO) > maxW"
  proof -
    have "\<not> maxH / RATIO \<le> maxW"
    proof
      assume le: "maxH / RATIO \<le> maxW"
      have "0 < maxH / RATIO" using pH R by simp
      from float64_mono [OF this le] eW gt show False by simp
    qed
    then have lt: "maxW * RATIO \<le> maxH" using R by (simp add: field_simps)
    have "0 < maxW * RATIO" using bW R by simp
    from float64_mono [OF this lt] eH have 1: "float64 (maxW * RATIO) \<le> maxH" by simp
    have "200 * RATIO \<le> maxW * RATIO" using bW R by simp
    from float64_mono [OF \<open>0 < 200 * RATIO\<close> this] 1 show ?thesis by simp
  qed
  show "float64 (maxH / RATIO) > maxW \<Longrightarrow> float64 (maxW * RATIO) \<le> maxH"
    using wf by simp
  show "\<not> float64 (maxH / RATIO) > maxW \<Longrightarrow> float64 (maxH / RATIO) \<le> maxW"
    by simp
  show "calculateLayout_float64 containerW containerH windowW RATIO
       = (if windowW < 1024 then Single else Double,
          if float64 (maxH / RATIO) > maxW
          then \<lparr>width = \<lfloor>maxW\<rfloor>, height = \<lfloor>float64 (maxW * RATIO)\<rfloor>\<rparr>
          else \<lparr>width = \<lfloor>float64 (maxH / RATIO)\<rfloor>, height = \<lfloor>maxH\<rfloor>\<rparr>)"
  proof (cases "windowW < 1024")
    case True
    then have m: "real_of_int containerH - 40 = maxH" "real_of_int containerW - 40 = maxW"
      by (simp_all add: mH mW)
    show ?thesis
    proof (cases "float64 (maxH / RATIO) > maxW")
      case gt: True
      with wf bW True show ?thesis
        by (simp add: calculateLayout_float64_def Let_def m)
    next
      case False
      with c1 c2 True show ?thesis
        by (simp add: calculateLayout_float64_def Let_def m)
    qed
  next
    case False
    then have m: "real_of_int containerH - 60 = maxH" "(real_of_int containerW - 80) / 2 = maxW"
      by (simp_all add: mH mW)
    show ?thesis
    proof (cases "float64 (maxH / RATIO) > maxW")
      case gt: True
      with wf bW False show ?thesis
        by (simp add: calculateLayout_float64_def Let_def m)
    next
      case nle: False
      with c1 c2 False show ?thesis
        by (simp add: calculateLayout_float64_def Let_def m)
    qed
  qed
qed

text \<open>
  The rounding is visible in the result: with the double nearest to 1.4, a 1080 by 1000
  container and viewport width 1400 the fit is width first, and \<^verbatim>\<open>500 * RATIO\<close> rounds up
  to the double 700, so the stored height is 700 (exact arithmetic gives 699).
\<close>

lemma float64_ratio_14: "float64 1.4 = 6305039478318694 / 2 ^ 52"
proof -
  have "float64 1.4 = real_of_int (roundHalfEven (1.4 / 2 powr real_of_int (0 - 52)))
                       * 2 powr real_of_int (0 - 52)"
    by (rule float64_binade) simp_all
  also have "(1.4::real) / 2 powr real_of_int (0 - 52) = 1.4 * 2 ^ 52"
    by (simp add: powr_minus powr_realpow [symmetric] field_simps del: powr_numeral)
  also have "roundHalfEven (1.4 * 2 ^ 52) = 6305039478318694"
    by (simp add: roundHalfEven_def Let_def)
  also have "(2::real) powr real_of_int (0 - 52) = 1 / 2 ^ 52"
    by (simp add: powr_minus powr_realpow [symmetric] field_simps del: powr_numeral)
  finally show ?thesis by simp
qed

lemma float64_700: "float64 (500 * (6305039478318694 / 2 ^ 52)) = 700"
proof -
  let ?x = "500 * (6305039478318694 / 2 ^ 52) :: real"
  have "float64 ?x = real_of_int (roundHalfEven (?x / 2 powr real_of_int (9 - 52)))
                       * 2 powr real_of_int (9 - 52)"
    by (rule float64_binade) (simp_all add: powr_realpow [symmetric] del: powr_numeral)
  also have "?x / 2 powr real_of_int (9 - 52) = ?x * 2 ^ 43"
    by (simp add: powr_minus powr_realpow [symmetric] field_simps del: powr_numeral)
  also have "roundHalfEven (?x * 2 ^ 43) = 6157265115545600"
    by (simp add: roundHalfEven_def Let_def)
  also have "(2::real) powr real_of_int (9 - 52) = 1 / 2 ^ 43"
    by (simp add: powr_minus powr_realpow [symmetric] field_simps del: powr_numeral)
  finally show ?thesis by simp
qed


lemma layout_float64_rounding:
  "calculateLayout_float64 1080 1000 1400 (float64 1.4) = (Double, \<lparr>width = 500, height = 700\<rparr>)"
proof -
  let ?r = "6305039478318694 / 2 ^ 52 :: real"
  have q: "float64 (real_of_int 512) \<le> float64 (940 / ?r)"
    by (intro float64_mono) simp_all
  have c: "float64 (200 * ?r) \<le> float64 (real_of_int 512)"
    by (intro float64_mono) simp_all
  have e: "float64 (real_of_int 512) = real_of_int 512"
    by (intro float64_of_int) simp_all
  from q c e have b: "500 < float64 (940 / ?r)" "float64 (200 * ?r) \<le> 700" by simp_all
  show ?thesis
    unfolding calculateLayout_float64_def float64_ratio_14 Let_def
    using b float64_700 by simp
qed

text \<open>
  C3: for the ratio 1.414 (the double nearest to it) in a 1200 by 800 container at
  viewport width 1400 the mode is double, the base height is at most 740, the base width
  at most 560 and height / width rounded to two decimals is 1.41; in a 100 by 100
  container the width is clamped to exactly 200 at every viewport width. In general, for
  a positive ratio, container sizes below \<open>2 ^ 53\<close> and an available area no smaller than
  the floor clamps (\<open>maxW \<ge> 200\<close>, \<open>maxH \<ge> 200 * RATIO\<close>), the fit is height first (height
  \<open>maxH\<close>, width the double \<open>maxH / RATIO\<close>) unless that width exceeds \<open>maxW\<close>, in which
  case it is width first (width \<open>maxW\<close>, height the double \<open>maxW * RATIO\<close>), each dimension
  floored, and the stored sheet exceeds neither \<open>maxW\<close> nor \<open>maxH\<close>.
\<close>

theorem C3_layout:
  "(case calculateLayout_float64 1200 800 1400 (float64 1.414) of (mode, d) \<Rightarrow>
      mode = Double \<and> height d \<le> 740 \<and> width d \<le> 560
      \<and> real_of_int \<lfloor>real_of_int (height d) / real_of_int (width d) * 100 + 1 / 2\<rfloor> / 100 = 1.41)
   \<and> width (snd (calculateLayout_float64 100 100 windowW (float64 1.414))) = 200
   \<and> (0 < RATIO \<longrightarrow> containerW < 2 ^ 53 \<longrightarrow> containerH < 2 ^ 53 \<longrightarrow>
        maxH = (if windowW < 1024 then real_of_int containerH - 40 else real_of_int containerH - 60) \<longrightarrow>
        maxW = (if windowW < 1024 then real_of_int containerW - 40
                else (real_of_int containerW - 80) / 2) \<longrightarrow>
        200 \<le> maxW \<longrightarrow> 200 * RATIO \<le> maxH \<longrightarrow>
        (case calculateLayout_float64 containerW containerH windowW RATIO of (mode, d) \<Rightarrow>
           (if float64 (maxH / RATIO) > maxW
            then width d = \<lfloor>maxW\<rfloor> \<and> height d = \<lfloor>float64 (maxW * RATIO)\<rfloor>
            else height d = \<lfloor>maxH\<rfloor> \<and> width d = \<lfloor>float64 (maxH / RATIO)\<rfloor>)
           \<and> real_of_int (width d) \<le> maxW \<and> real_of_int (height d) \<le> maxH))"
proof (intro conjI impI)
  show "case calculateLayout_float64 1200 800 1400 (float64 1.414) of (mode, d) \<Rightarrow>
      mode = Double \<and> height d \<le> 740 \<and> width d \<le> 560
      \<and> real_of_int \<lfloor>real_of_int (height d) / real_of_int (width d) * 100 + 1 / 2\<rfloor> / 100 = 1.41"
    unfolding layout_float64_vector [OF default_ratio_bounds] by simp
  show "width (snd (calculateLayout_float64 100 100 windowW (float64 1.414))) = 200"
    by (rule layout_float64_tiny [OF default_ratio_bounds])
next
  assume R: "0 < RATIO" and cw: "containerW < 2 ^ 53" and ch: "containerH < 2 ^ 53"
    and mH: "maxH = (if windowW < 1024 then real_of_int containerH - 40 else real_of_int containerH - 60)"
    and mW: "maxW = (if windowW < 1024 then real_of_int containerW - 40
                else (real_of_int containerW - 80) / 2)"
    and bW: "200 \<le> maxW" and bH: "200 * RATIO \<le> maxH"
  note fit = layout_float64_fit [OF R cw ch mH mW bW bH]
  show "case calculateLayout_float64 containerW containerH windowW RATIO of (mode, d) \<Rightarrow>
           (if float64 (maxH / RATIO) > maxW
            then width d = \<lfloor>maxW\<rfloor> \<and> height d = \<lfloor>float64 (maxW * RATIO)\<rfloor>
            else height d = \<lfloor>maxH\<rfloor> \<and> width d = \<lfloor>float64 (maxH / RATIO)\<rfloor>)
           \<and> real_of_int (width d) \<le> maxW \<and> real_of_int (height d) \<le> maxH"
  proof (cases "float64 (maxH / RATIO) > maxW")
    case True
    have "real_of_int \<lfloor>float64 (maxW * RATIO)\<rfloor> \<le> maxH"
      using fit(2) [OF True] of_int_floor_le [of "float64 (maxW * RATIO)"] by linarith
    with True show ?thesis unfolding fit(1) by simp
  next
    case False
    have "real_of_int \<lfloor>float64 (maxH / RATIO)\<rfloor> \<le> maxW"
      using fit(3) [OF False] of_int_floor_le [of "float64 (maxH / RATIO)"] by linarith
    with False show ?thesis unfolding fit(1) by simp
  qed
qed

theorem C3_layout_witness:
  "calculateLayout_float64 1200 800 1400 (float64 1.414)
     = (Double, \<lparr>width = 523, height = 740\<rparr>)
   \<and> width (snd (calculateLayout_float64 100 100 1400 (float64 1.414))) = 200
   \<and> 0 < float64 1.414 \<and> (200::real) \<le> 560 \<and> 200 * float64 1.414 \<le> 740
   \<and> real_of_int (width (snd (calculateLayout_float64 1200 800 1400 (float64 1.414)))) \<le> 560
   \<and> real_of_int (height (snd (calculateLayout_float64 1200 800 1400 (float64 1.414)))) \<le> 740"
proof -
  have v: "calculateLayout_float64 1200 800 1400 (float64 1.414)
     = (Double, \<lparr>width = 523, height = 740\<rparr>)"
    by (rule layout_float64_vector [OF default_ratio_bounds])
  have h: "0 < float64 1.414" "200 * float64 1.414 \<le> 740"
    using default_ratio_bounds by simp_all
  from C3_layout [where windowW = 1400 and RATIO = "float64 1.414" and maxH = 740
      and containerH = 800 and maxW = 560 and containerW = 1200] h
  have "real_of_int (width (snd (calculateLayout_float64 1200 800 1400 (float64 1.414)))) \<le> 560
      \<and> real_of_int (height (snd (calculateLayout_float64 1200 800 1400 (float64 1.414)))) \<le> 740
      \<and> width (snd (calculateLayout_float64 100 100 1400 (float64 1.414))) = 200"
    by (simp add: split_beta)
  with v h show ?thesis by simp
qed




subsection \<open>Sound player\<close>

lemma pickRandomIndex_differs:
  "pickRandomIndex draws lastIndex n = Some (i, rest) \<Longrightarrow> 1 < n \<Longrightarrow> i \<noteq> lastIndex"
  by (induction draws) (auto simp: Let_def split: if_splits)

lemma pickRandomIndex_returns:
  "\<exists>r \<in> set draws. \<lfloor>r * real n\<rfloor> \<noteq> lastIndex \<Longrightarrow> pickRandomIndex draws lastIndex n \<noteq> None"
  by (induction draws) (auto simp: Let_def)

lemma playFlipSound_last:
  "playFlipSound en vol w draws st = Some (Some i, st', draws')
     \<Longrightarrow> lastSoundIndexRef st' = i \<and> length (audioPoolRef st) \<le> length (audioPoolRef st')"
  by (auto simp: playFlipSound_def initAudioPool_def Let_def split: if_splits option.splits)

lemma playFlipSound_differs:
  "playFlipSound en vol w draws st = Some (Some j, st', draws')
     \<Longrightarrow> 1 < length (audioPoolRef st) \<Longrightarrow> j \<noteq> lastSoundIndexRef st"
  by (auto simp: playFlipSound_def initAudioPool_def Let_def
      split: if_splits option.splits dest!: pickRandomIndex_differs)

text \<open>
  C8: when two consecutive \<^verbatim>\<open>playFlipSound\<close> calls each select a clip and the pool
  holds more than one clip, the second index differs from the first, whatever the
  random draws are. The second part says that a call does return as soon as one of the
  coming draws gives an index other than the last one.
\<close>

theorem C8_no_immediate_repeat:
  "(playFlipSound enabled vol windowDefined draws st = Some (Some i, st1, draws1) \<longrightarrow>
      playFlipSound enabled' vol' windowDefined' draws1 st1 = Some (Some j, st2, draws2) \<longrightarrow>
      1 < length (audioPoolRef st1) \<longrightarrow> j \<noteq> i)
   \<and> (loadedRef st \<longrightarrow> (\<exists>r \<in> set draws.
          \<lfloor>r * real (length (audioPoolRef st))\<rfloor> \<noteq> lastSoundIndexRef st) \<longrightarrow>
        playFlipSound enabled vol windowDefined draws st \<noteq> None)"
proof (intro conjI impI)
  assume "playFlipSound enabled vol windowDefined draws st = Some (Some i, st1, draws1)"
  then have "lastSoundIndexRef st1 = i" by (simp add: playFlipSound_last)
  moreover assume "playFlipSound enabled' vol' windowDefined' draws1 st1 = Some (Some j, st2, draws2)"
    and "1 < length (audioPoolRef st1)"
  then have "j \<noteq> lastSoundIndexRef st1" by (rule playFlipSound_differs)
  ultimately show "j \<noteq> i" by simp
next
  assume "loadedRef st"
    and "\<exists>r \<in> set draws. \<lfloor>r * real (length (audioPoolRef st))\<rfloor> \<noteq> lastSoundIndexRef st"
  then show "playFlipSound enabled vol windowDefined draws st \<noteq> None"
    using pickRandomIndex_returns [of draws "length (audioPoolRef st)" "lastSoundIndexRef st"]
    by (auto simp: playFlipSound_def Let_def split: option.splits)
qed

lemma first_flip:
  "playFlipSound True 0.2 True [0.5, 0.4, 0.9] initialSoundState
     = Some (Some 1, afterFirstFlip, [0.4, 0.9])"
  by (simp add: playFlipSound_def initialSoundState_def initAudioPool_def PAGE_FLIP_SOUNDS_def
      afterFirstFlip_def Let_def)

lemma second_flip:
  "\<exists>st2. playFlipSound True 0.2 True [0.4, 0.9] afterFirstFlip = Some (Some 2, st2, [])"
  by (simp add: playFlipSound_def afterFirstFlip_def Let_def)

theorem C8_no_immediate_repeat_witness:
  "\<exists>st2. playFlipSound True 0.2 True [0.5, 0.4, 0.9] initialSoundState
           = Some (Some 1, afterFirstFlip, [0.4, 0.9])
       \<and> playFlipSound True 0.2 True [0.4, 0.9] afterFirstFlip = Some (Some 2, st2, [])
       \<and> 1 < length (audioPoolRef afterFirstFlip) \<and> (2::int) \<noteq> 1
       \<and> loadedRef afterFirstFlip
       \<and> playFlipSound True 0.2 True [0.4, 0.9] afterFirstFlip \<noteq> None"
proof -
  from second_flip obtain st2 where
    s2: "playFlipSound True 0.2 True [0.4, 0.9] afterFirstFlip = Some (Some 2, st2, [])" ..
  have len: "1 < length (audioPoolRef afterFirstFlip)" and ld: "loadedRef afterFirstFlip"
    by (simp_all add: afterFirstFlip_def)
  have dr: "\<exists>r \<in> set [0.4, 0.9 :: real].
      \<lfloor>r * real (length (audioPoolRef afterFirstFlip))\<rfloor> \<noteq> lastSoundIndexRef afterFirstFlip"
    by (simp add: afterFirstFlip_def)
  from C8_no_immediate_repeat [of True "0.2" True "[0.5, 0.4, 0.9]" initialSoundState 1
      afterFirstFlip "[0.4, 0.9]" True "0.2" True 2 st2 "[]"]
  have "(2::int) \<noteq> 1" using first_flip s2 len by blast
  moreover from C8_no_immediate_repeat [of True "0.2" True "[0.4, 0.9]" afterFirstFlip]
  have "playFlipSound True 0.2 True [0.4, 0.9] afterFirstFlip \<noteq> None" using ld dr by blast
  ultimately show ?thesis using first_flip s2 len ld by blast
qed

subsection \<open>Backend: documents and categories\<close>

lemma maxOrder_fold:
  "foldl (\<lambda>mx d. max mx (orZero (document.order d))) a docs
     = Max (insert a (document.order ` set docs))"
proof (induction docs arbitrary: a)
  case Nil
  show ?case by simp
next
  case (Cons d docs)
  have "Max (insert (max a (document.order d)) (document.order ` set docs))
      = Max (insert a (insert (document.order d) (document.order ` set docs)))"
    by (cases "docs = []") (simp_all add: max.assoc)
  then show ?case using Cons.IH [of "max a (orZero (document.order d))"]
    by (simp add: orZero_def)
qed

lemma maxOrder_nonneg:
  assumes "list_all (\<lambda>d. 0 \<le> document.order d) docs"
  shows "foldl (\<lambda>mx d. max mx (orZero (document.order d))) 0 docs
     = (if docs = [] then 0 else Max (document.order ` set docs))"
proof (cases "docs = []")
  case True
  then show ?thesis by simp
next
  case False
  then have ne: "document.order ` set docs \<noteq> {}" by simp
  have "0 \<le> Max (document.order ` set docs)"
    using assms False by (cases docs) (auto simp: Max_ge_iff)
  then have "Max (insert 0 (document.order ` set docs)) = Max (document.order ` set docs)"
    using ne by simp
  then show ?thesis using False by (simp add: maxOrder_fold)
qed

lemma insort_key_snoc:
  "\<forall>y \<in> set ys. f y \<le> f x \<Longrightarrow> f d \<le> f x \<Longrightarrow>
     insort_key f d (ys @ [x]) = insort_key f d ys @ [x]"
  by (induction ys) auto

lemma sort_key_snoc_greatest:
  fixes f :: "'a \<Rightarrow> int"
  assumes "\<forall>y \<in> set ys. f y \<le> f x"
  shows "sort_key f (ys @ [x]) = sort_key f ys @ [x]"
  using assms
proof (induction ys)
  case Nil
  show ?case by simp
next
  case (Cons y ys)
  then have "sort_key f (ys @ [x]) = sort_key f ys @ [x]" by simp
  moreover have "\<forall>z \<in> set (sort_key f ys). f z \<le> f x" using Cons.prems by simp
  ultimately show ?case using Cons.prems
    by (simp add: insort_key_snoc)
qed

lemma saveDocument_order_greater:
  assumes "d \<in> set (documents db)"
  shows "document.order d
     < foldl (\<lambda>mx d. max mx (orZero (document.order d))) 0 (documents db) + 1"
proof -
  have "document.order d \<le> Max (insert 0 (document.order ` set (documents db)))"
    using assms by (intro Max_ge) auto
  then show ?thesis by (simp add: maxOrder_fold)
qed

lemma saveDocument_ordersNonNegative:
  assumes "ordersNonNegative db"
  shows "ordersNonNegative (snd (saveDocument args today now db))"
proof -
  have "0 \<le> foldl (\<lambda>mx d. max mx (orZero (document.order d))) 0 (documents db)"
    by (simp add: maxOrder_fold)
  then show ?thesis using assms
    by (simp add: saveDocument_def Let_def ordersNonNegative_def)
qed

lemma patchDocument_ordersNonNegative:
  "ordersNonNegative db \<Longrightarrow> patchDocument ident (\<lambda>d. d\<lparr>document.order := int i\<rparr>) db = Some db'
     \<Longrightarrow> ordersNonNegative db'"
  by (auto simp: patchDocument_def ordersNonNegative_def list_all_iff split: if_splits)

lemma reorderFrom_ordersNonNegative:
  "ordersNonNegative db \<Longrightarrow> reorderFrom i ids db = Some db' \<Longrightarrow> ordersNonNegative db'"
proof (induction ids arbitrary: i db)
  case Nil
  then show ?case by simp
next
  case (Cons ident ids)
  then show ?case
    by (auto split: option.splits dest: patchDocument_ordersNonNegative)
qed

lemma reorder_ordersNonNegative:
  "ordersNonNegative db \<Longrightarrow> reorder ids db = Some db' \<Longrightarrow> ordersNonNegative db'"
  unfolding reorder_def by (rule reorderFrom_ordersNonNegative)

lemma emptyDatabase_ordersNonNegative: "ordersNonNegative emptyDatabase"
  by (simp add: ordersNonNegative_def emptyDatabase_def)

text \<open>
  C9: the record created by \<^verbatim>\<open>saveDocument\<close> is appended to the table with
  \<^verbatim>\<open>active = true\<close> and \<^verbatim>\<open>order\<close> one more than the maximum order of the documents
  already stored (0 when there are none), so its order is greater than every existing
  one and it comes last in the \<^verbatim>\<open>by_order\<close> listing. The orders already stored are
  non-negative: \<^verbatim>\<open>saveDocument\<close> writes orders from 1 up and \<^verbatim>\<open>reorder\<close> writes array
  positions, and both keep that invariant (lemmas \<open>saveDocument_ordersNonNegative\<close>,
  \<open>reorder_ordersNonNegative\<close>).
\<close>

theorem C9_saveDocument:
  assumes "ordersNonNegative db"
      and "saveDocument args today now db = (ident, db')"
  shows "\<exists>new. documents db' = documents db @ [new]
           \<and> docId new = ident
           \<and> document.active new = True
           \<and> document.order new
               = (if documents db = [] then 0 else Max (document.order ` set (documents db))) + 1
           \<and> (\<forall>d \<in> set (documents db). document.order d < document.order new)
           \<and> withIndex_by_order (documents db') = withIndex_by_order (documents db) @ [new]"
proof -
  let ?mx = "foldl (\<lambda>mx d. max mx (orZero (document.order d))) 0 (documents db)"
  define new where "new = \<lparr>docId = nextId db, title = argTitle args,
     categoryId = argCategoryId args, date = today, storageId = argStorageId args,
     pageImages = argPageImages args, active = True, order = ?mx + 1, createdAt = now\<rparr>"
  have docs: "documents db' = documents db @ [new]" and ident: "docId new = ident"
    using assms(2) by (auto simp: saveDocument_def Let_def new_def)
  have ord: "document.order new = ?mx + 1" and act: "document.active new = True"
    by (simp_all add: new_def)
  have mx: "?mx = (if documents db = [] then 0 else Max (document.order ` set (documents db)))"
    using assms(1) unfolding ordersNonNegative_def by (rule maxOrder_nonneg)
  have gt: "\<forall>d \<in> set (documents db). document.order d < document.order new"
  proof
    fix d assume "d \<in> set (documents db)"
    from saveDocument_order_greater [OF this] show "document.order d < document.order new"
      by (simp only: ord)
  qed
  then have "\<forall>d \<in> set (documents db). document.order d \<le> document.order new"
    by (simp add: less_imp_le)
  then have "sort_key document.order (documents db @ [new])
      = sort_key document.order (documents db) @ [new]"
    by (rule sort_key_snoc_greatest)
  then have "withIndex_by_order (documents db') = withIndex_by_order (documents db) @ [new]"
    by (simp add: withIndex_by_order_def docs)
  then have srt: "withIndex_by_order (documents db') = withIndex_by_order (documents db) @ [new]" .
  have ord': "document.order new
      = (if documents db = [] then 0 else Max (document.order ` set (documents db))) + 1"
    by (simp only: ord mx)
  show ?thesis
    by (rule exI [of _ new]) (intro conjI docs ident act ord' gt srt)
qed

lemma exampleDatabase_documents:
  "documents exampleDatabase =
    [\<lparr>docId = 0, title = ''A'', categoryId = 7, date = ''2025-01-01'', storageId = 1,
       pageImages = None, active = True, order = 1, createdAt = 1735689600000\<rparr>,
     \<lparr>docId = 1, title = ''B'', categoryId = 7, date = ''2025-01-02'', storageId = 2,
       pageImages = None, active = True, order = 2, createdAt = 1735776000000\<rparr>]"
  by (simp add: exampleDatabase_def saveDocument_def emptyDatabase_def orZero_def Let_def)

theorem C9_saveDocument_witness:
  "ordersNonNegative exampleDatabase
   \<and> (\<exists>new. documents (snd (saveDocument
          \<lparr>argTitle = ''C'', argCategoryId = 7, argStorageId = 3, argPageImages = None\<rparr>
          ''2025-01-03'' 1735862400000 exampleDatabase)) = documents exampleDatabase @ [new]
        \<and> document.active new = True \<and> document.order new = 3)"
proof -
  have inv: "ordersNonNegative exampleDatabase"
    by (simp add: ordersNonNegative_def exampleDatabase_documents)
  obtain ident db' where sv: "saveDocument
          \<lparr>argTitle = ''C'', argCategoryId = 7, argStorageId = 3, argPageImages = None\<rparr>
          ''2025-01-03'' 1735862400000 exampleDatabase = (ident, db')"
    by (cases "saveDocument
          \<lparr>argTitle = ''C'', argCategoryId = 7, argStorageId = 3, argPageImages = None\<rparr>
          ''2025-01-03'' 1735862400000 exampleDatabase")
  from C9_saveDocument [OF inv sv] obtain new where
    "documents db' = documents exampleDatabase @ [new]" "document.active new = True"
    "document.order new
       = (if documents exampleDatabase = [] then 0
          else Max (document.order ` set (documents exampleDatabase))) + 1"
    by blast
  moreover have "(if documents exampleDatabase = [] then 0
          else Max (document.order ` set (documents exampleDatabase))) = 2"
    by (simp add: exampleDatabase_documents)
  ultimately show ?thesis using inv sv by auto
qed

lemma details_of_listed:
  "map doc (List.map_filter id (map (\<lambda>d.
             (case categories db (categoryId d) of
                None \<Rightarrow> None
              | Some cat \<Rightarrow>
                  if \<not> category.active cat then None
                  else Some \<lparr>doc = d,
                             fileUrl = storageUrl db (storageId d),
                             pageUrls = map_option (map (storageUrl db)) (pageImages d),
                             categoryName = name cat\<rparr>)) xs))
   = filter (\<lambda>d. case categories db (categoryId d) of None \<Rightarrow> False
                  | Some cat \<Rightarrow> category.active cat) xs"
  by (induction xs) (auto simp: List.map_filter_simps split: option.splits)

text \<open>
  C10: \<^verbatim>\<open>listActiveDocuments\<close> returns, in \<^verbatim>\<open>by_order\<close> order, exactly the documents whose
  own \<^verbatim>\<open>active\<close> flag is true and whose category exists and is active; an active
  document of an inactive or missing category is left out.
\<close>

theorem C10_listActiveDocuments:
  "map doc (listActiveDocuments db)
     = filter (\<lambda>d. document.active d \<and>
                 (\<exists>cat. categories db (categoryId d) = Some cat \<and> category.active cat))
         (withIndex_by_order (documents db))
   \<and> (d \<in> doc ` set (listActiveDocuments db) \<longleftrightarrow>
        d \<in> set (documents db) \<and> document.active d \<and>
        (\<exists>cat. categories db (categoryId d) = Some cat \<and> category.active cat))"
proof -
  have eq: "(\<lambda>d. document.active d \<and>
                 (\<exists>cat. categories db (categoryId d) = Some cat \<and> category.active cat))
      = (\<lambda>d. document.active d \<and> (case categories db (categoryId d) of None \<Rightarrow> False
                  | Some cat \<Rightarrow> category.active cat))"
    by (auto split: option.splits)
  have m: "map doc (listActiveDocuments db)
     = filter (\<lambda>d. document.active d \<and>
                 (\<exists>cat. categories db (categoryId d) = Some cat \<and> category.active cat))
         (withIndex_by_order (documents db))"
    unfolding eq by (simp add: listActiveDocuments_def Let_def details_of_listed conj_commute)
  have "doc ` set (listActiveDocuments db) = set (map doc (listActiveDocuments db))"
    by simp
  also have "\<dots> = {d \<in> set (documents db). document.active d \<and>
                 (\<exists>cat. categories db (categoryId d) = Some cat \<and> category.active cat)}"
    unfolding m by (simp add: withIndex_by_order_def)
  finally show ?thesis using m by blast
qed

theorem C10_listActiveDocuments_witness:
  "map (docId \<circ> doc) (listActiveDocuments catalogue) = [0]"
proof -
  have "map doc (listActiveDocuments catalogue)
     = filter (\<lambda>d. document.active d \<and>
                 (\<exists>cat. categories catalogue (categoryId d) = Some cat \<and> category.active cat))
         (withIndex_by_order (documents catalogue))"
    using C10_listActiveDocuments [of catalogue] by blast
  then have "map docId (map doc (listActiveDocuments catalogue)) = [0]"
    by (simp add: catalogue_def withIndex_by_order_def)
  then show ?thesis by simp
qed

end
